theory Spec2Isabelle
  imports Main
begin

section \<open>Python string primitives used by the chunk builder\<close>

text \<open>
  Texts are lists of characters. The chunk builder of \<^verbatim>\<open>crawler/crawler.py\<close> uses three
  operations of Python's \<^verbatim>\<open>str\<close>: slicing \<^verbatim>\<open>text[a:b]\<close>, \<^verbatim>\<open>text.find(sub, a, b)\<close> and
  \<^verbatim>\<open>text.rfind(sub, a, b)\<close>. All three first adjust the two indices: a negative index counts
  from the end of the text, and the result is clamped to \<open>0 .. len(text)\<close>.
\<close>

definition py_index :: "nat \<Rightarrow> int \<Rightarrow> nat" where
  "py_index n i = (if i < 0 then nat (max 0 (i + int n)) else min n (nat i))"

definition py_slice :: "'a list \<Rightarrow> int \<Rightarrow> int \<Rightarrow> 'a list" where
  "py_slice text a b =
     (let lo = py_index (length text) a; hi = py_index (length text) b
      in take (hi - lo) (drop lo text))"

text \<open>
  \<^verbatim>\<open>text.find(sub, a, b)\<close> is the lowest index \<open>i\<close> with \<open>text[i:i+len(sub)] == sub\<close> and the
  whole occurrence inside the adjusted window, or \<open>-1\<close>; \<^verbatim>\<open>rfind\<close> is the highest such index.
  (Only non-empty separators are searched for by the code below.)
\<close>

definition occurs_at :: "'a list \<Rightarrow> 'a list \<Rightarrow> nat \<Rightarrow> bool" where
  "occurs_at sub text i = (take (length sub) (drop i text) = sub)"

definition py_find :: "'a list \<Rightarrow> 'a list \<Rightarrow> int \<Rightarrow> int \<Rightarrow> int" where
  "py_find sub text a b =
     (let lo = py_index (length text) a; hi = py_index (length text) b
      in case List.find (occurs_at sub text) [lo ..< hi + 1 - length sub] of
           None \<Rightarrow> - 1
         | Some i \<Rightarrow> int i)"

definition py_rfind :: "'a list \<Rightarrow> 'a list \<Rightarrow> int \<Rightarrow> int \<Rightarrow> int" where
  "py_rfind sub text a b =
     (let lo = py_index (length text) a; hi = py_index (length text) b
      in case List.find (occurs_at sub text) (rev [lo ..< hi + 1 - length sub]) of
           None \<Rightarrow> - 1
         | Some i \<Rightarrow> int i)"

section \<open>The chunk builder: \<^verbatim>\<open>DocumentBuilder._split_text\<close>\<close>

definition paragraph_sep :: string where
  "paragraph_sep = [CHR 0x0A, CHR 0x0A]"

definition sentence_sep :: string where
  "sentence_sep = ''. ''"

definition space_sep :: string where
  "space_sep = '' ''"

text \<open>
  The end position of the chunk that starts at \<open>start\<close>: lines 232 to 253 of the source.
  Python's \<^verbatim>\<open>//\<close> is floor division, as \<open>div\<close> on \<open>int\<close> is.
\<close>

definition chunk_end :: "string \<Rightarrow> int \<Rightarrow> int \<Rightarrow> int" where
  "chunk_end text chunk_size start =
     (let n = int (length text);
          end0 = start + chunk_size;
          end1 =
            (if end0 < n then
               (let paragraph_break =
                      py_find paragraph_sep text (end0 - chunk_size div 2) (end0 + chunk_size div 2)
                in if paragraph_break \<noteq> - 1 then paragraph_break + 2
                   else
                     (let sentence_break =
                            py_find sentence_sep text (end0 - chunk_size div 4) (end0 + chunk_size div 4)
                      in if sentence_break \<noteq> - 1 then sentence_break + 2
                         else if end0 < n then
                           (let space = py_rfind space_sep text (end0 - chunk_size div 8) end0
                            in if space \<noteq> - 1 then space + 1 else end0)
                         else end0))
             else end0)
      in min end1 n)"

text \<open>
  Lines 259 to 263: the next start is \<open>end - chunk_overlap\<close>, forced to \<open>start + 1\<close> when that
  would not advance.
\<close>

definition next_start :: "int \<Rightarrow> int \<Rightarrow> int \<Rightarrow> int" where
  "next_start start end1 chunk_overlap =
     (let ns = end1 - chunk_overlap in if ns \<le> start then start + 1 else ns)"

text \<open>
  The \<^verbatim>\<open>while start < len(text)\<close> loop. Each round appends one chunk; the list is returned
  in the order of emission. The \<^verbatim>\<open>break\<close> of line 269 is the inner test.
\<close>

function split_loop :: "string \<Rightarrow> int \<Rightarrow> int \<Rightarrow> int \<Rightarrow> string list" where
  "split_loop text chunk_size chunk_overlap start =
     (if start < int (length text) then
        py_slice text start (chunk_end text chunk_size start) #
          (if next_start start (chunk_end text chunk_size start) chunk_overlap \<ge> int (length text)
           then []
           else split_loop text chunk_size chunk_overlap
                  (next_start start (chunk_end text chunk_size start) chunk_overlap))
      else [])"
  by pat_completeness auto

termination split_loop
  by (relation "measure (\<lambda>(t, cs, ov, start). nat (int (length t) - start))")
     (auto simp: next_start_def Let_def)

declare split_loop.simps [simp del]

definition split_text :: "string \<Rightarrow> int \<Rightarrow> int \<Rightarrow> string list" where
  "split_text text chunk_size chunk_overlap =
     (if text = [] then []
      else if int (length text) \<le> chunk_size then [text]
      else split_loop text chunk_size chunk_overlap 0)"

text \<open>
  The reconstruction that the coverage property speaks of: the first chunk whole, every
  later chunk without its first \<open>chunk_overlap\<close> characters, concatenated.
\<close>

definition trim_overlap :: "int \<Rightarrow> string \<Rightarrow> string" where
  "trim_overlap chunk_overlap chunk = drop (nat chunk_overlap) chunk"

definition reassemble :: "int \<Rightarrow> string list \<Rightarrow> string" where
  "reassemble chunk_overlap chunks =
     (case chunks of [] \<Rightarrow> [] | c # cs \<Rightarrow> c @ concat (map (trim_overlap chunk_overlap) cs))"

section \<open>The parallel fetch stage: \<^verbatim>\<open>SingleCrawler\<close> and \<^verbatim>\<open>ParallelCrawler\<close>\<close>

text \<open>
  The browser automation is outside the repository. One call of
  \<^verbatim>\<open>AsyncWebCrawler(...).arun(url)\<close> (entering and leaving the context manager included)
  either raises an exception, \<open>Inl\<close> of its message \<^verbatim>\<open>str(e)\<close>, or returns an object
  whose three text attributes may each be absent (\<^verbatim>\<open>hasattr\<close> is tested for each).
\<close>

record crawl_output =
  out_markdown :: "string option"
  out_extracted_content :: "string option"
  out_cleaned_html :: "string option"

type_synonym arun = "string \<Rightarrow> string + crawl_output"

text \<open>
  The dictionary a worker returns. The success dictionary has the keys \<^verbatim>\<open>url\<close>,
  \<^verbatim>\<open>success\<close>, \<^verbatim>\<open>markdown\<close>, \<^verbatim>\<open>cleaned_html\<close>, \<^verbatim>\<open>extracted_content\<close>; the failure
  dictionary has \<^verbatim>\<open>url\<close>, \<^verbatim>\<open>success\<close>, \<^verbatim>\<open>error\<close>. A key that is absent is \<open>None\<close>.
\<close>

record fetch_result =
  url :: string
  success :: bool
  markdown :: "string option"
  cleaned_html :: "string option"
  extracted_content :: "string option"
  error :: "string option"

definition attr_or_empty :: "string option \<Rightarrow> string" where
  "attr_or_empty a = (case a of Some v \<Rightarrow> v | None \<Rightarrow> [])"

definition crawl_async :: "arun \<Rightarrow> string \<Rightarrow> fetch_result" where
  "crawl_async run u =
     (case run u of
        Inr r \<Rightarrow>
          \<lparr>url = u, success = True,
           markdown = Some (attr_or_empty (out_markdown r)),
           cleaned_html = Some (attr_or_empty (out_cleaned_html r)),
           extracted_content = Some (attr_or_empty (out_extracted_content r)),
           error = None\<rparr>
      | Inl e \<Rightarrow>
          \<lparr>url = u, success = False, markdown = None, cleaned_html = None,
           extracted_content = None, error = Some e\<rparr>)"

text \<open>\<^verbatim>\<open>crawl_process\<close> runs \<^verbatim>\<open>crawl_async\<close> in the worker process; logging and timing are left out.\<close>

definition crawl_process :: "arun \<Rightarrow> string \<Rightarrow> fetch_result" where
  "crawl_process run u = crawl_async run u"

datatype py_error = ValueError

text \<open>
  \<^verbatim>\<open>ParallelCrawler.crawl\<close>. \<open>cpu_count\<close> is the value of \<^verbatim>\<open>multiprocessing.cpu_count()\<close>
  and \<open>max_processes\<close> the constructor argument (\<open>None\<close> when not given).
  \<^verbatim>\<open>multiprocessing.Pool(processes=n)\<close> raises \<^verbatim>\<open>ValueError\<close> for \<open>n < 1\<close> and otherwise
  starts \<open>n\<close> worker processes; \<^verbatim>\<open>pool.map\<close> returns the results in the order of its input.
  The result pairs the size of the pool that was created (\<open>None\<close>: no pool was created)
  with the list of results.
\<close>

definition crawl :: "arun \<Rightarrow> int \<Rightarrow> int option \<Rightarrow> string list
    \<Rightarrow> py_error + (int option \<times> fetch_result list)" where
  "crawl run cpu_count max_processes urls =
     (if urls = [] then Inr (None, [])
      else
        (let mp = (case max_processes of None \<Rightarrow> cpu_count | Some m \<Rightarrow> m);
             mp' = min mp (int (length urls))
         in if mp' < 1 then Inl ValueError
            else Inr (Some mp', map (crawl_process run) urls)))"

section \<open>The frontier crawler: \<^verbatim>\<open>URLExtractor\<close>\<close>

text \<open>
  The documentation filter of line 98, \<^verbatim>\<open>'doc' in link.lower()\<close>. Lowering maps the
  letters \<open>A\<close> to \<open>Z\<close> (codes 65 to 90) to \<open>a\<close> to \<open>z\<close>, which is what \<^verbatim>\<open>str.lower\<close> does
  on the ASCII strings that a serialised \<^verbatim>\<open>href\<close> is; \<^verbatim>\<open>in\<close> is substring containment.
\<close>

definition lower_char :: "char \<Rightarrow> char" where
  "lower_char c =
     (let k = (of_char c :: nat) in if 65 \<le> k \<and> k \<le> 90 then char_of (k + 32) else c)"

definition py_lower :: "string \<Rightarrow> string" where
  "py_lower s = map lower_char s"

definition py_in :: "string \<Rightarrow> string \<Rightarrow> bool" where
  "py_in sub s = (py_find sub s 0 (int (length s)) \<noteq> - 1)"

definition is_doc :: "string \<Rightarrow> bool" where
  "is_doc link = py_in ''doc'' (py_lower link)"

text \<open>
  \<^verbatim>\<open>urlparse\<close> and \<^verbatim>\<open>urljoin\<close> belong to Python's library and are parameters here:
  \<open>netloc_of link\<close> is \<^verbatim>\<open>urlparse(link).netloc\<close> and \<open>url_join base link\<close> is
  \<^verbatim>\<open>urljoin(base, link)\<close>, each \<open>None\<close> where the library raises \<^verbatim>\<open>ValueError\<close>.
\<close>

record urllib =
  netloc_of :: "string \<Rightarrow> string option"
  url_join :: "string \<Rightarrow> string \<Rightarrow> string option"

text \<open>
  The history of one extraction, kept beside the state and read by no test of the code:
  \<open>Got u d\<close> for a job \<open>(u, d)\<close> that a worker took from the queue, \<open>Enq u d\<close> for a
  \<^verbatim>\<open>queue.put((u, d))\<close> together with its \<^verbatim>\<open>queued_urls.add(u)\<close>, and \<open>Seen l d\<close> for a
  resolved link \<open>l\<close> that reached the filter of line 98 while a page of depth \<open>d\<close> was
  processed.
\<close>

datatype event = Got string int | Enq string int | Seen string int

text \<open>
  The state of \<^verbatim>\<open>URLExtractor\<close> during \<^verbatim>\<open>extract_doc_urls\<close>: the three sets, the FIFO
  queue with the counter of unfinished tasks that \<^verbatim>\<open>queue.join()\<close> waits for, and one slot
  per worker task: \<open>None\<close> for a worker waiting in \<^verbatim>\<open>queue.get()\<close>, \<open>Some (u, d)\<close> for a
  worker suspended in \<^verbatim>\<open>_fetch_links(u)\<close>.
\<close>

record frontier =
  doc_urls :: "string set"
  visited_urls :: "string set"
  queued_urls :: "string set"
  queue :: "(string \<times> int) list"
  unfinished_tasks :: nat
  workers :: "(string \<times> int) option list"
  trace :: "event list"

text \<open>Lines 39 to 52: the reset, the seed job at depth 1, and \<open>concurrency\<close> workers.\<close>

definition extract_init :: "int \<Rightarrow> string \<Rightarrow> frontier" where
  "extract_init concurrency base_url =
     \<lparr>doc_urls = {}, visited_urls = {}, queued_urls = {base_url},
      queue = [(base_url, 1)], unfinished_tasks = 1,
      workers = replicate (nat concurrency) None,
      trace = [Enq base_url 1]\<rparr>"

definition task_done :: "frontier \<Rightarrow> frontier" where
  "task_done s = s\<lparr>unfinished_tasks := unfinished_tasks s - 1\<rparr>"

text \<open>
  Lines 88 to 104, one round of \<^verbatim>\<open>for link in links\<close> while the page \<open>(page, depth)\<close> is
  processed. \<open>None\<close> is an exception raised by the normalisation; an empty link is skipped.
  \<^verbatim>\<open>queue.put\<close> on an unbounded queue does not suspend, so the round is atomic.
\<close>

definition process_link :: "urllib \<Rightarrow> int \<Rightarrow> string \<Rightarrow> int \<Rightarrow> frontier \<Rightarrow> string
    \<Rightarrow> frontier option" where
  "process_link lib max_depth page depth s link0 =
     (if link0 = [] then Some s
      else
        (case netloc_of lib link0 of
           None \<Rightarrow> None
         | Some nl \<Rightarrow>
             (case (if nl = [] then url_join lib page link0 else Some link0) of
                None \<Rightarrow> None
              | Some link \<Rightarrow>
                  (let s1 = s\<lparr>doc_urls := (if is_doc link then insert link (doc_urls s)
                                             else doc_urls s),
                              trace := trace s @ [Seen link depth]\<rparr>
                   in if depth < max_depth \<and> link \<notin> visited_urls s1 \<and> link \<notin> queued_urls s1
                      then Some (s1\<lparr>queue := queue s1 @ [(link, depth + 1)],
                                    unfinished_tasks := unfinished_tasks s1 + 1,
                                    queued_urls := insert link (queued_urls s1),
                                    trace := trace s1 @ [Enq link (depth + 1)]\<rparr>)
                      else Some s1))))"

text \<open>
  The whole \<^verbatim>\<open>for\<close> loop. An exception leaves the loop for the handler of line 106, which
  only logs: what the earlier rounds did to the state stays.
\<close>

fun process_links :: "urllib \<Rightarrow> int \<Rightarrow> string \<Rightarrow> int \<Rightarrow> frontier \<Rightarrow> string list
    \<Rightarrow> frontier" where
  "process_links lib max_depth page depth s [] = s"
| "process_links lib max_depth page depth s (l # ls) =
     (case process_link lib max_depth page depth s l of
        None \<Rightarrow> s
      | Some s' \<Rightarrow> process_links lib max_depth page depth s' ls)"

text \<open>
  The workers are cooperative tasks of one event loop: a worker runs until it suspends,
  in \<^verbatim>\<open>queue.get()\<close> or in \<^verbatim>\<open>_fetch_links\<close>. Every interleaving is a list of actions:
  \<open>Get w\<close>, worker \<open>w\<close> resumes from \<^verbatim>\<open>queue.get()\<close> with the head of the queue and runs
  lines 75 to 84; \<open>Fetched w links\<close>, worker \<open>w\<close> resumes from \<^verbatim>\<open>_fetch_links\<close>, which
  returned \<open>links\<close> (the empty list when the fetch failed), and runs lines 87 to 111.
  An action that cannot happen in the state (a busy or missing worker, an empty queue)
  gives \<open>None\<close>.
\<close>

datatype action = Get nat | Fetched nat "string list"

fun worker_step :: "urllib \<Rightarrow> int \<Rightarrow> frontier \<Rightarrow> action \<Rightarrow> frontier option" where
  "worker_step lib max_depth s (Get w) =
     (if w < length (workers s) \<and> workers s ! w = None then
        (case queue s of
           [] \<Rightarrow> None
         | (u, depth) # rest \<Rightarrow>
             (let s1 = s\<lparr>queue := rest, trace := trace s @ [Got u depth]\<rparr>
              in if u \<in> visited_urls s then Some (task_done s1)
                 else Some (s1\<lparr>visited_urls := insert u (visited_urls s),
                               workers := (workers s)[w := Some (u, depth)]\<rparr>)))
      else None)"
| "worker_step lib max_depth s (Fetched w links) =
     (if w < length (workers s) then
        (case workers s ! w of
           None \<Rightarrow> None
         | Some (u, depth) \<Rightarrow>
             Some (task_done
               ((process_links lib max_depth u depth s links)\<lparr>workers := (workers s)[w := None]\<rparr>)))
      else None)"

fun run_workers :: "urllib \<Rightarrow> int \<Rightarrow> frontier \<Rightarrow> action list \<Rightarrow> frontier option" where
  "run_workers lib max_depth s [] = Some s"
| "run_workers lib max_depth s (a # as) =
     (case worker_step lib max_depth s a of
        None \<Rightarrow> None
      | Some s' \<Rightarrow> run_workers lib max_depth s' as)"

text \<open>
  \<^verbatim>\<open>extract_doc_urls\<close>: the state reached under a schedule, and the returned set. The call
  returns when \<^verbatim>\<open>queue.join()\<close> does, that is when no task is unfinished.
\<close>

definition extract_state :: "urllib \<Rightarrow> int \<Rightarrow> int \<Rightarrow> string \<Rightarrow> action list
    \<Rightarrow> frontier option" where
  "extract_state lib max_depth concurrency base_url sched =
     run_workers lib max_depth (extract_init concurrency base_url) sched"

definition extract_doc_urls :: "urllib \<Rightarrow> int \<Rightarrow> int \<Rightarrow> string \<Rightarrow> action list
    \<Rightarrow> string set option" where
  "extract_doc_urls lib max_depth concurrency base_url sched =
     (case extract_state lib max_depth concurrency base_url sched of
        None \<Rightarrow> None
      | Some s \<Rightarrow> if unfinished_tasks s = 0 then Some (doc_urls s) else None)"

text \<open>Projections of the history: the URLs put on the queue, the jobs taken from it, the links seen.\<close>

fun enq_url :: "event \<Rightarrow> string list" where
  "enq_url (Enq u d) = [u]"
| "enq_url _ = []"

fun got_job :: "event \<Rightarrow> (string \<times> int) list" where
  "got_job (Got u d) = [(u, d)]"
| "got_job _ = []"

fun seen_link :: "event \<Rightarrow> (string \<times> int) list" where
  "seen_link (Seen l d) = [(l, d)]"
| "seen_link _ = []"

definition enqueued :: "frontier \<Rightarrow> string list" where
  "enqueued s = concat (map enq_url (trace s))"

definition processed :: "frontier \<Rightarrow> (string \<times> int) list" where
  "processed s = concat (map got_job (trace s))"

definition seen :: "frontier \<Rightarrow> (string \<times> int) list" where
  "seen s = concat (map seen_link (trace s))"

definition seen_links :: "frontier \<Rightarrow> string set" where
  "seen_links s = set (map fst (seen s))"

text \<open>The links seen on a page whose depth is at least \<open>max_depth\<close>: these are never enqueued.\<close>

definition deep_links :: "int \<Rightarrow> frontier \<Rightarrow> string set" where
  "deep_links max_depth s = set (map fst (filter (\<lambda>j. max_depth \<le> snd j) (seen s)))"

definition busy :: "frontier \<Rightarrow> nat" where
  "busy s = length (filter (\<lambda>j. j \<noteq> None) (workers s))"

definition frontier_inv :: "int \<Rightarrow> frontier \<Rightarrow> bool" where
  "frontier_inv max_depth s \<longleftrightarrow>
     visited_urls s \<subseteq> queued_urls s
   \<and> fst ` set (queue s) \<subseteq> queued_urls s
   \<and> (\<forall>j \<in> set (queue s). snd j \<le> max max_depth 1)
   \<and> (\<forall>j \<in> set (processed s). snd j \<le> max max_depth 1)
   \<and> distinct (enqueued s)
   \<and> set (enqueued s) = queued_urls s
   \<and> doc_urls s = {l \<in> seen_links s. is_doc l}
   \<and> doc_urls s \<subseteq> queued_urls s \<union> deep_links max_depth s"

section \<open>The end of a chunk as the specification words it\<close>

text \<open>
  For comparison with \<open>chunk_end\<close>, the rule in the words of the specification.
  \<open>spec_breaks sep text lo hi\<close> lists, in increasing order, the positions at which the
  separator occurs in the text with the whole occurrence inside the window from \<open>lo\<close> to
  \<open>hi\<close>. The end is taken after the first paragraph break within \<open>chunk_size div 2\<close> on
  either side of the candidate \<open>start + chunk_size\<close>, else after the first sentence break
  within \<open>chunk_size div 4\<close> on either side, else after the last space within the
  \<open>chunk_size div 8\<close> characters before the candidate, else at the candidate clamped to
  the length of the text.
\<close>

definition spec_breaks :: "string \<Rightarrow> string \<Rightarrow> int \<Rightarrow> int \<Rightarrow> nat list" where
  "spec_breaks sep text lo hi =
     filter (\<lambda>i. lo \<le> int i \<and> int i + int (length sep) \<le> hi \<and> occurs_at sep text i)
       [0 ..< length text]"

definition spec_chunk_end :: "string \<Rightarrow> int \<Rightarrow> int \<Rightarrow> int" where
  "spec_chunk_end text chunk_size start =
     (let cand = start + chunk_size;
          paragraphs = spec_breaks paragraph_sep text (cand - chunk_size div 2) (cand + chunk_size div 2);
          sentences = spec_breaks sentence_sep text (cand - chunk_size div 4) (cand + chunk_size div 4);
          spaces = spec_breaks space_sep text (cand - chunk_size div 8) cand
      in if paragraphs \<noteq> [] then int (hd paragraphs) + 2
         else if sentences \<noteq> [] then int (hd sentences) + 2
         else if spaces \<noteq> [] then int (last spaces) + 1
         else min cand (int (length text)))"

section \<open>Fixtures for the concrete runs\<close>

text \<open>
  A stand-in for the URL library on the small examples below: a link that starts with
  \<open>/\<close> has no authority and is joined to the page by concatenation; every other link is
  absolute.
\<close>

definition example_urllib :: urllib where
  "example_urllib =
     \<lparr>netloc_of = (\<lambda>l. if take 1 l = ''/'' then Some [] else Some ''x.com''),
      url_join = (\<lambda>page l. Some (page @ l))\<rparr>"

text \<open>A fetch that raises for the URL \<open>b\<close> and returns the URL as markdown otherwise.\<close>

definition example_run :: arun where
  "example_run u =
     (if u = ''b'' then Inl ''boom''
      else Inr \<lparr>out_markdown = Some u, out_extracted_content = None, out_cleaned_html = None\<rparr>)"

text \<open>
  One complete interleaving of two workers on a site of three pages, with a duplicate link,
  a link back to the seed and a documentation link found at the maximal depth 2, and the
  state it ends in.
\<close>

definition example_schedule :: "action list" where
  "example_schedule =
     [Get 0, Fetched 0 [''/doc'', ''/doc'', ''h/about''], Get 0, Get 1,
      Fetched 1 [''h'', ''h/doc/a''], Fetched 0 []]"

definition example_final :: frontier where
  "example_final =
     \<lparr>doc_urls = {''h/doc/a'', ''h/doc''},
      visited_urls = {''h/about'', ''h/doc'', ''h''},
      queued_urls = {''h/about'', ''h/doc'', ''h''},
      queue = [], unfinished_tasks = 0, workers = [None, None],
      trace =
        [Enq ''h'' 1, Got ''h'' 1, Seen ''h/doc'' 1, Enq ''h/doc'' 2,
         Seen ''h/doc'' 1, Seen ''h/about'' 1, Enq ''h/about'' 2,
         Got ''h/doc'' 2, Got ''h/about'' 2, Seen ''h'' 2, Seen ''h/doc/a'' 2]\<rparr>"

section \<open>Index arithmetic of the string primitives\<close>

lemma py_index_le: "py_index n i \<le> n"
  by (auto simp: py_index_def)

lemma py_index_nonneg: "0 \<le> i \<Longrightarrow> int (py_index n i) = min (int n) i"
  by (simp add: py_index_def)

lemma py_slice_nat:
  assumes "0 \<le> a" "0 \<le> b" "b \<le> int (length t)"
  shows "py_slice t a b = take (nat b - nat a) (drop (nat a) t)"
proof (cases "nat a \<le> length t")
  case True
  then show ?thesis using assms by (simp add: py_slice_def py_index_def Let_def min_def)
next
  case False
  then show ?thesis using assms by (simp add: py_slice_def py_index_def Let_def min_def)
qed

lemma py_find_bounds:
  assumes "py_find sub t a b \<noteq> - 1"
  shows "int (py_index (length t) a) \<le> py_find sub t a b
       \<and> py_find sub t a b + int (length sub) \<le> int (py_index (length t) b)"
proof -
  let ?lo = "py_index (length t) a" and ?hi = "py_index (length t) b"
  obtain i where f: "List.find (occurs_at sub t) [?lo ..< ?hi + 1 - length sub] = Some i"
    using assms by (auto simp: py_find_def Let_def split: option.splits)
  then have "i \<in> set [?lo ..< ?hi + 1 - length sub]"
    by (auto simp: find_Some_iff)
  moreover have "py_find sub t a b = int i"
    using f by (simp add: py_find_def Let_def)
  ultimately show ?thesis by auto
qed

lemma py_rfind_bounds:
  assumes "py_rfind sub t a b \<noteq> - 1"
  shows "int (py_index (length t) a) \<le> py_rfind sub t a b
       \<and> py_rfind sub t a b + int (length sub) \<le> int (py_index (length t) b)"
proof -
  let ?lo = "py_index (length t) a" and ?hi = "py_index (length t) b"
  obtain i where f: "List.find (occurs_at sub t) (rev [?lo ..< ?hi + 1 - length sub]) = Some i"
    using assms by (auto simp: py_rfind_def Let_def split: option.splits)
  then have "i \<in> set (rev [?lo ..< ?hi + 1 - length sub])"
    unfolding find_Some_iff by (metis nth_mem)
  moreover have "py_rfind sub t a b = int i"
    using f by (simp add: py_rfind_def Let_def)
  ultimately show ?thesis by auto
qed

lemma py_find_window:
  assumes "py_find sub t a b \<noteq> - 1" "0 \<le> a" "sub \<noteq> []"
  shows "a \<le> py_find sub t a b"
    and "py_find sub t a b + int (length sub) \<le> int (length t)"
proof -
  let ?r = "py_find sub t a b"
  have 1: "min (int (length t)) a \<le> ?r"
    using py_find_bounds [OF assms(1)] py_index_nonneg [OF assms(2), of "length t"] by simp
  have 2: "?r + int (length sub) \<le> int (py_index (length t) b)"
    using py_find_bounds [OF assms(1)] by simp
  have 3: "int (py_index (length t) b) \<le> int (length t)"
    using py_index_le [of "length t" b] by simp
  have 4: "0 < int (length sub)" using assms(3) by simp
  show "a \<le> ?r" using 1 2 3 4 by linarith
  show "?r + int (length sub) \<le> int (length t)" using 2 3 by linarith
qed

lemma py_rfind_window:
  assumes "py_rfind sub t a b \<noteq> - 1" "0 \<le> a" "sub \<noteq> []"
  shows "a \<le> py_rfind sub t a b"
    and "py_rfind sub t a b + int (length sub) \<le> int (length t)"
proof -
  let ?r = "py_rfind sub t a b"
  have 1: "min (int (length t)) a \<le> ?r"
    using py_rfind_bounds [OF assms(1)] py_index_nonneg [OF assms(2), of "length t"] by simp
  have 2: "?r + int (length sub) \<le> int (py_index (length t) b)"
    using py_rfind_bounds [OF assms(1)] by simp
  have 3: "int (py_index (length t) b) \<le> int (length t)"
    using py_index_le [of "length t" b] by simp
  have 4: "0 < int (length sub)" using assms(3) by simp
  show "a \<le> ?r" using 1 2 3 4 by linarith
  show "?r + int (length sub) \<le> int (length t)" using 2 3 by linarith
qed

section \<open>The chunk builder: where a chunk ends\<close>

lemma sep_lengths:
  "int (length paragraph_sep) = 2" "int (length sentence_sep) = 2" "int (length space_sep) = 1"
  "paragraph_sep \<noteq> []" "sentence_sep \<noteq> []" "space_sep \<noteq> []"
  by (simp_all add: paragraph_sep_def sentence_sep_def space_sep_def)

lemma chunk_end_le: "chunk_end t cs start \<le> int (length t)"
  by (simp add: chunk_end_def Let_def)

lemma chunk_end_tail:
  "int (length t) \<le> start + cs \<Longrightarrow> chunk_end t cs start = int (length t)"
  by (simp add: chunk_end_def Let_def)

text \<open>
  Before the end of the text a chunk is at least \<open>min cs (cs - cs div 2 + 2)\<close> long:
  the earliest end is a paragraph break at the very start of its window.
\<close>

lemma chunk_end_advance:
  assumes "0 \<le> start" "0 \<le> cs" "start + cs < int (length t)"
  shows "start + min cs (cs - cs div 2 + 2) \<le> chunk_end t cs start"
proof -
  let ?n = "int (length t)"
  let ?c = "start + cs"
  let ?p = "py_find paragraph_sep t (?c - cs div 2) (?c + cs div 2)"
  let ?s = "py_find sentence_sep t (?c - cs div 4) (?c + cs div 4)"
  let ?w = "py_rfind space_sep t (?c - cs div 8) ?c"
  have nn: "0 \<le> ?c - cs div 2" "0 \<le> ?c - cs div 4" "0 \<le> ?c - cs div 8"
    using assms by auto
  show ?thesis
  proof (cases "?p \<noteq> - 1")
    case True
    have "?c - cs div 2 \<le> ?p" "?p + 2 \<le> ?n"
      using py_find_window [OF True nn(1) sep_lengths(4)] sep_lengths(1) by simp_all
    moreover have "chunk_end t cs start = min (?p + 2) ?n"
      using True assms by (simp add: chunk_end_def Let_def)
    ultimately show ?thesis by linarith
  next
    case np: False
    show ?thesis
    proof (cases "?s \<noteq> - 1")
      case True
      have "?c - cs div 4 \<le> ?s" "?s + 2 \<le> ?n"
        using py_find_window [OF True nn(2) sep_lengths(5)] sep_lengths(2) by simp_all
      moreover have "chunk_end t cs start = min (?s + 2) ?n"
        using True np assms by (simp add: chunk_end_def Let_def)
      moreover have "cs div 4 \<le> cs div 2" using assms(2) by simp
      ultimately show ?thesis by linarith
    next
      case ns: False
      show ?thesis
      proof (cases "?w \<noteq> - 1")
        case True
        have "?c - cs div 8 \<le> ?w" "?w + 1 \<le> ?n"
          using py_rfind_window [OF True nn(3) sep_lengths(6)] sep_lengths(3) by simp_all
        moreover have "chunk_end t cs start = min (?w + 1) ?n"
          using True np ns assms by (simp add: chunk_end_def Let_def)
        moreover have "cs div 8 = 0 \<or> cs div 8 + 1 \<le> cs div 2" using assms(2) by presburger
        ultimately show ?thesis by linarith
      next
        case False
        then have "chunk_end t cs start = min ?c ?n"
          using np ns assms by (simp add: chunk_end_def Let_def)
        then show ?thesis using assms by linarith
      qed
    qed
  qed
qed

lemma chunk_end_progress:
  assumes "0 \<le> ov" "ov < cs" "ov < cs - cs div 2 + 2" "0 \<le> start"
  shows "chunk_end t cs start = int (length t) \<or> start + ov < chunk_end t cs start"
proof (cases "start + cs < int (length t)")
  case True
  from chunk_end_advance [OF assms(4) _ True] assms show ?thesis by linarith
next
  case False
  then show ?thesis using chunk_end_tail [of t start cs] by simp
qed

section \<open>The chunk builder: the loop\<close>

lemma next_start_gt: "start < next_start start e ov"
  by (simp add: next_start_def Let_def)

lemma split_loop_nonempty: "start < int (length t) \<Longrightarrow> split_loop t cs ov start \<noteq> []"
  by (subst split_loop.simps) simp

text \<open>One chunk per round, and every round moves the start by at least one character.\<close>

lemma split_loop_length: "length (split_loop t cs ov start) \<le> nat (int (length t) - start)"
proof (induction t cs ov start rule: split_loop.induct)
  case (1 t cs ov start)
  let ?n = "int (length t)"
  let ?s' = "next_start start (chunk_end t cs start) ov"
  show ?case
  proof (cases "start < ?n")
    case False
    then show ?thesis by (subst split_loop.simps) simp
  next
    case True
    have gt: "start < ?s'" by (rule next_start_gt)
    show ?thesis
    proof (cases "?n \<le> ?s'")
      case True
      with \<open>start < ?n\<close> show ?thesis by (subst split_loop.simps) simp
    next
      case False
      with "1.IH" [OF \<open>start < ?n\<close>]
      have "length (split_loop t cs ov ?s') \<le> nat (?n - ?s')" by simp
      with gt False \<open>start < ?n\<close> show ?thesis by (subst split_loop.simps) simp
    qed
  qed
qed

lemma split_loop_trimmed:
  assumes "0 \<le> ov" "ov < cs" "ov < cs - cs div 2 + 2"
  shows "0 \<le> start \<Longrightarrow>
         concat (map (trim_overlap ov) (split_loop t cs ov start)) = drop (nat (start + ov)) t"
  using assms
proof (induction t cs ov start rule: split_loop.induct)
  case (1 t cs ov start)
  let ?n = "int (length t)"
  let ?e = "chunk_end t cs start"
  let ?s' = "next_start start ?e ov"
  show ?case
  proof (cases "start < ?n")
    case False
    then show ?thesis using "1.prems" by (subst split_loop.simps) simp
  next
    case True
    have e_le: "?e \<le> ?n" by (rule chunk_end_le)
    have prog: "?e = ?n \<or> start + ov < ?e"
      using chunk_end_progress [of ov cs start t] "1.prems" by simp
    have e0: "0 \<le> ?e" using prog True "1.prems" by linarith
    have s'_gt: "start < ?s'" by (rule next_start_gt)
    have rest: "concat (map (trim_overlap ov)
                  (if ?n \<le> ?s' then [] else split_loop t cs ov ?s')) = drop (nat (?s' + ov)) t"
    proof (cases "?n \<le> ?s'")
      case True
      then show ?thesis using "1.prems" by simp
    next
      case False
      with "1.IH" [OF True] "1.prems" s'_gt show ?thesis by simp
    qed
    have head: "trim_overlap ov (py_slice t start ?e)
                  = take (nat ?e - nat (start + ov)) (drop (nat (start + ov)) t)"
      using "1.prems" e0 e_le
      by (simp add: py_slice_nat trim_overlap_def drop_take nat_add_distrib add.commute)
    have glue: "take (nat ?e - nat (start + ov)) (drop (nat (start + ov)) t) @ drop (nat (?s' + ov)) t
                  = drop (nat (start + ov)) t"
    proof (cases "start + ov < ?e")
      case True
      define k m where "k = nat ?e - nat (start + ov)" and "m = nat (start + ov)"
      have km: "k + m = nat ?e" using True "1.prems" by (simp add: k_def m_def)
      have se: "?s' + ov = ?e" using True by (simp add: next_start_def Let_def)
      have "take k (drop m t) @ drop k (drop m t) = drop m t" by (rule append_take_drop_id)
      then have "take k (drop m t) @ drop (nat ?e) t = drop m t" by (simp add: km)
      then show ?thesis by (simp add: se k_def m_def)
    next
      case False
      with prog have en: "?e = ?n" by simp
      with False have "?s' = start + 1" by (simp add: next_start_def Let_def)
      with False en "1.prems" show ?thesis by simp
    qed
    show ?thesis
      using True rest head glue by (subst split_loop.simps) simp
  qed
qed

section \<open>Claims about the chunk builder\<close>

text \<open>
  Claim C9. Splitting the empty text gives the empty list for every chunk size and overlap,
  and a non-empty text that is no longer than the chunk size comes back as one chunk, the
  whole text; in particular \<open>split("short text", 1000, 200) = ["short text"]\<close>.
  (The empty text is the first case of the source and of the specification; the one-chunk
  case is the second.)
\<close>

theorem split_text_edge_cases:
  "split_text [] cs ov = []
   \<and> (t \<noteq> [] \<and> int (length t) \<le> cs \<longrightarrow> split_text t cs ov = [t])
   \<and> split_text ''short text'' 1000 200 = [''short text'']"
  by (simp add: split_text_def)

theorem split_text_edge_cases_witness:
  "''ab'' \<noteq> [] \<and> int (length ''ab'') \<le> 2 \<and> split_text ''ab'' 2 7 = [''ab'']"
  using split_text_edge_cases [of 2 7 "''ab''"] by simp

text \<open>
  Claim C3. The split terminates for every input: \<open>split_loop\<close> is a total function, its
  recursion justified by the distance of \<open>start\<close> to the end of the text, which every
  round decreases because the next start is always greater than the start, being forced
  to \<open>start + 1\<close> whenever \<open>end - overlap\<close> does not advance. No condition on chunk size and
  overlap is needed. A text longer than the chunk size (and not empty, which follows for
  a chunk size that is not negative) gives at least one chunk and at most as many chunks
  as it has characters.
\<close>

theorem split_text_terminates:
  "start < next_start start e ov
   \<and> (e - ov \<le> start \<longrightarrow> next_start start e ov = start + 1)
   \<and> (t \<noteq> [] \<and> cs < int (length t) \<longrightarrow>
        split_text t cs ov \<noteq> [] \<and> length (split_text t cs ov) \<le> length t)"
proof -
  have "split_text t cs ov \<noteq> [] \<and> length (split_text t cs ov) \<le> length t"
    if "t \<noteq> []" "cs < int (length t)"
  proof -
    have eq: "split_text t cs ov = split_loop t cs ov 0"
      using that by (simp add: split_text_def)
    have "split_loop t cs ov 0 \<noteq> []"
      using that(1) by (intro split_loop_nonempty) simp
    moreover have "length (split_loop t cs ov 0) \<le> length t"
      using split_loop_length [of t cs ov 0] by simp
    ultimately show ?thesis by (simp add: eq)
  qed
  then show ?thesis
    by (simp add: next_start_def Let_def)
qed

theorem split_text_terminates_witness:
  "(0::int) < next_start 0 10 50
   \<and> (10::int) - 50 \<le> 0 \<and> next_start 0 10 50 = 0 + 1
   \<and> ''abcdefghijk'' \<noteq> [] \<and> 10 < int (length ''abcdefghijk'')
   \<and> split_text ''abcdefghijk'' 10 50 \<noteq> []
   \<and> length (split_text ''abcdefghijk'' 10 50) \<le> length ''abcdefghijk''"
  using split_text_terminates [of 0 10 50 "''abcdefghijk''" 10] by simp

text \<open>
  Claim C2 as stated fails. With chunk size 10 and overlap 50 every later chunk is shorter
  than the overlap, so trimming leaves the first chunk only and the last character is
  lost. It also fails with an overlap below the chunk size: with chunk size 10 and
  overlap 7 a paragraph break at offset 5 ends the first chunk at 7, \<open>end - overlap\<close> does
  not advance, the start is forced to 1, and the character at offset 7 is trimmed away
  from the second chunk.
\<close>

theorem split_text_coverage_counterexample:
  "reassemble 50 (split_text ''abcdefghijk'' 10 50) = ''abcdefghij''
   \<and> reassemble 50 (split_text ''abcdefghijk'' 10 50) \<noteq> ''abcdefghijk''
   \<and> reassemble 7 (split_text (''abcde'' @ paragraph_sep @ ''fghijklmn'') 10 7)
       = ''abcde'' @ paragraph_sep @ ''ghijklmn''
   \<and> reassemble 7 (split_text (''abcde'' @ paragraph_sep @ ''fghijklmn'') 10 7)
       \<noteq> ''abcde'' @ paragraph_sep @ ''fghijklmn''"
  by code_simp

text \<open>
  Claim C2, amended. When \<open>0 \<le> overlap < chunkSize\<close> and
  \<open>overlap < chunkSize - chunkSize div 2 + 2\<close> (so whenever the overlap is at most half of
  a positive chunk size, as for the defaults 1000 and 200), the first chunk followed by
  every later chunk without its first \<open>overlap\<close> characters is the original text.
\<close>

theorem split_text_coverage:
  assumes "0 \<le> ov" "ov < cs" "ov < cs - cs div 2 + 2"
  shows "reassemble ov (split_text t cs ov) = t"
proof (cases "t = [] \<or> int (length t) \<le> cs")
  case True
  then show ?thesis by (auto simp: split_text_def reassemble_def)
next
  case False
  let ?n = "int (length t)"
  let ?e = "chunk_end t cs 0"
  let ?s' = "next_start 0 ?e ov"
  have pos: "0 < ?n" using False by simp
  have e_le: "?e \<le> ?n" by (rule chunk_end_le)
  have prog: "?e = ?n \<or> ov < ?e"
    using chunk_end_progress [of ov cs 0 t] assms by simp
  have e0: "0 \<le> ?e" using prog pos assms by linarith
  have s'_gt: "0 < ?s'" by (rule next_start_gt)
  have rest: "concat (map (trim_overlap ov)
                (if ?n \<le> ?s' then [] else split_loop t cs ov ?s')) = drop (nat (?s' + ov)) t"
    using split_loop_trimmed [OF assms, of ?s' t] s'_gt assms by simp
  have glue: "take (nat ?e) t @ drop (nat (?s' + ov)) t = t"
  proof (cases "ov < ?e")
    case True
    then have "?s' + ov = ?e" by (simp add: next_start_def Let_def)
    then show ?thesis by simp
  next
    case False
    with prog have en: "?e = ?n" by simp
    with False have "?s' = 1" by (simp add: next_start_def Let_def)
    with False en assms show ?thesis by simp
  qed
  have "split_text t cs ov = split_loop t cs ov 0"
    using False by (simp add: split_text_def)
  also have "\<dots> = py_slice t 0 ?e # (if ?n \<le> ?s' then [] else split_loop t cs ov ?s')"
    using pos by (subst split_loop.simps) simp
  finally show ?thesis
    using rest glue e0 e_le by (simp add: reassemble_def py_slice_nat)
qed

theorem split_text_coverage_witness:
  "(0::int) \<le> 3 \<and> (3::int) < 16 \<and> (3::int) < 16 - 16 div 2 + 2
   \<and> reassemble 3 (split_text ''ab cd ef. gh ij kl mn op qr st uv wx yz'' 16 3)
       = ''ab cd ef. gh ij kl mn op qr st uv wx yz''"
  using split_text_coverage [of 3 16 "''ab cd ef. gh ij kl mn op qr st uv wx yz''"] by simp

section \<open>The chunk builder against the specification's rule for the end of a chunk\<close>

lemma find_filter: "List.find P xs = (case filter P xs of [] \<Rightarrow> None | x # _ \<Rightarrow> Some x)"
  by (induction xs) auto

lemma find_append_option:
  "List.find P (xs @ ys) = (case List.find P xs of None \<Rightarrow> List.find P ys | Some x \<Rightarrow> Some x)"
  by (induction xs) auto

lemma find_rev_filter:
  "List.find P (rev xs) = (if filter P xs = [] then None else Some (last (filter P xs)))"
  by (induction xs) (auto simp: find_append_option split: option.splits)

lemma occurs_at_in_text:
  assumes "occurs_at sub t i" "sub \<noteq> []"
  shows "i + length sub \<le> length t"
proof -
  from assms(1) have "length (take (length sub) (drop i t)) = length sub"
    by (simp add: occurs_at_def)
  then have "min (length t - i) (length sub) = length sub" by simp
  moreover have "0 < length sub" using assms(2) by simp
  ultimately show ?thesis by arith
qed

lemma window_filter:
  assumes "0 \<le> lo" "0 \<le> hi" "sub \<noteq> []"
  shows "filter (occurs_at sub t)
           [py_index (length t) lo ..< py_index (length t) hi + 1 - length sub]
         = spec_breaks sub t lo hi"
  unfolding spec_breaks_def
proof (rule sorted_distinct_set_unique)
  let ?n = "length t" and ?m = "length sub"
  have m: "0 < ?m" using assms(3) by simp
  have occ: "i + ?m \<le> ?n" if "occurs_at sub t i" for i
    using that assms(3) by (rule occurs_at_in_text)
  have lo: "int (py_index ?n lo) = min (int ?n) lo" and hi: "int (py_index ?n hi) = min (int ?n) hi"
    using assms by (simp_all add: py_index_nonneg)
  show "set (filter (occurs_at sub t) [py_index ?n lo ..< py_index ?n hi + 1 - ?m])
      = set (filter (\<lambda>i. lo \<le> int i \<and> int i + int ?m \<le> hi \<and> occurs_at sub t i) [0 ..< ?n])"
  proof (intro set_eqI iffI)
    fix i
    assume "i \<in> set (filter (occurs_at sub t) [py_index ?n lo ..< py_index ?n hi + 1 - ?m])"
    then have a: "py_index ?n lo \<le> i" "i + ?m \<le> py_index ?n hi" "occurs_at sub t i"
      using m by auto
    have mi: "0 < int ?m" using m by simp
    from a(1) have 1: "min (int ?n) lo \<le> int i" using lo by linarith
    from a(2) have 2: "int i + int ?m \<le> min (int ?n) hi" using hi by linarith
    have "lo \<le> int i" using 1 2 mi by linarith
    moreover have "int i + int ?m \<le> hi" using 2 by linarith
    moreover have "int i < int ?n" using 2 mi by linarith
    ultimately have "lo \<le> int i" "int i + int ?m \<le> hi" "i < ?n" by simp_all
    with a(3) show "i \<in> set (filter (\<lambda>i. lo \<le> int i \<and> int i + int ?m \<le> hi \<and> occurs_at sub t i) [0 ..< ?n])"
      by simp
  next
    fix i
    assume "i \<in> set (filter (\<lambda>i. lo \<le> int i \<and> int i + int ?m \<le> hi \<and> occurs_at sub t i) [0 ..< ?n])"
    then have a: "lo \<le> int i" "int i + int ?m \<le> hi" "occurs_at sub t i" by auto
    from occ [OF a(3)] have "int i + int ?m \<le> int ?n" by linarith
    with a(1,2) have "min (int ?n) lo \<le> int i" "int i + int ?m \<le> min (int ?n) hi" by auto
    then have "py_index ?n lo \<le> i" "i + ?m \<le> py_index ?n hi" using lo hi by linarith+
    with a(3) m show "i \<in> set (filter (occurs_at sub t) [py_index ?n lo ..< py_index ?n hi + 1 - ?m])"
      by auto
  qed
qed (simp_all add: sorted_wrt_filter)

lemma py_find_spec:
  assumes "0 \<le> lo" "0 \<le> hi" "sub \<noteq> []"
  shows "py_find sub t lo hi
         = (if spec_breaks sub t lo hi = [] then - 1 else int (hd (spec_breaks sub t lo hi)))"
  unfolding py_find_def Let_def find_filter window_filter [OF assms]
  by (simp split: list.splits)

lemma py_rfind_spec:
  assumes "0 \<le> lo" "0 \<le> hi" "sub \<noteq> []"
  shows "py_rfind sub t lo hi
         = (if spec_breaks sub t lo hi = [] then - 1 else int (last (spec_breaks sub t lo hi)))"
  unfolding py_rfind_def Let_def find_rev_filter window_filter [OF assms]
  by simp

text \<open>
  Claim C8 as stated fails. The source searches for a boundary only while the candidate
  \<open>start + chunkSize\<close> lies before the end of the text (line 235). In the text below, of
  11 characters, split with chunk size 10 and overlap 8, the second chunk starts at
  offset 2; its candidate is 12, the paragraph break at offset 8 lies within 5
  characters of it, and the rule of the claim ends the chunk after the break, at 10.
  The code ends it at 11, the end of the text.
\<close>

theorem chunk_end_priority_counterexample:
  "chunk_end (''abcdefgh'' @ paragraph_sep @ ''i'') 10 2 = 11
   \<and> spec_chunk_end (''abcdefgh'' @ paragraph_sep @ ''i'') 10 2 = 10
   \<and> take 2 (split_text (''abcdefgh'' @ paragraph_sep @ ''i'') 10 8)
       = [''abcdefgh'' @ paragraph_sep, ''cdefgh'' @ paragraph_sep @ ''i'']"
  by code_simp

text \<open>
  Claim C8, amended. For a chunk size that is not negative and a chunk whose candidate
  \<open>start + chunkSize\<close> lies before the end of the text, the end of the chunk is chosen in
  the stated priority order: after the first paragraph break within \<open>chunkSize div 2\<close>
  on either side of the candidate, else after the first sentence break within
  \<open>chunkSize div 4\<close> on either side, else after the last space within the
  \<open>chunkSize div 8\<close> characters before the candidate, else at the candidate. When the
  candidate is at or past the end of the text, nothing is searched and the chunk ends at
  the end of the text.
\<close>

theorem chunk_end_priority:
  assumes "0 \<le> start" "0 \<le> cs"
  shows "(start + cs < int (length t) \<longrightarrow> chunk_end t cs start = spec_chunk_end t cs start)
       \<and> (int (length t) \<le> start + cs \<longrightarrow> chunk_end t cs start = int (length t))"
proof (intro conjI impI)
  assume "int (length t) \<le> start + cs"
  then show "chunk_end t cs start = int (length t)" by (rule chunk_end_tail)
next
  assume lt: "start + cs < int (length t)"
  let ?n = "int (length t)"
  let ?c = "start + cs"
  let ?P = "spec_breaks paragraph_sep t (?c - cs div 2) (?c + cs div 2)"
  let ?S = "spec_breaks sentence_sep t (?c - cs div 4) (?c + cs div 4)"
  let ?W = "spec_breaks space_sep t (?c - cs div 8) ?c"
  have nn: "0 \<le> ?c - cs div 2" "0 \<le> ?c - cs div 4" "0 \<le> ?c - cs div 8"
    "0 \<le> ?c + cs div 2" "0 \<le> ?c + cs div 4" "0 \<le> ?c"
    using assms by auto
  have p: "py_find paragraph_sep t (?c - cs div 2) (?c + cs div 2)
             = (if ?P = [] then - 1 else int (hd ?P))"
    by (rule py_find_spec [OF nn(1) nn(4) sep_lengths(4)])
  have s: "py_find sentence_sep t (?c - cs div 4) (?c + cs div 4)
             = (if ?S = [] then - 1 else int (hd ?S))"
    by (rule py_find_spec [OF nn(2) nn(5) sep_lengths(5)])
  have w: "py_rfind space_sep t (?c - cs div 8) ?c
             = (if ?W = [] then - 1 else int (last ?W))"
    by (rule py_rfind_spec [OF nn(3) nn(6) sep_lengths(6)])
  have in_text: "int i + int (length sep) \<le> ?n"
    if "i \<in> set (spec_breaks sep t lo hi)" "sep \<noteq> []" for i sep lo hi
  proof -
    from that(1) have "occurs_at sep t i" by (simp add: spec_breaks_def)
    from occurs_at_in_text [OF this that(2)] show ?thesis by linarith
  qed
  have bp: "int (hd ?P) + 2 \<le> ?n" if "?P \<noteq> []"
    using in_text [OF hd_in_set [OF that] sep_lengths(4)] sep_lengths(1) by simp
  have bs: "int (hd ?S) + 2 \<le> ?n" if "?S \<noteq> []"
    using in_text [OF hd_in_set [OF that] sep_lengths(5)] sep_lengths(2) by simp
  have bw: "int (last ?W) + 1 \<le> ?n" if "?W \<noteq> []"
    using in_text [OF last_in_set [OF that] sep_lengths(6)] sep_lengths(3) by simp
  show "chunk_end t cs start = spec_chunk_end t cs start"
    unfolding chunk_end_def spec_chunk_end_def Let_def p s w
    using lt bp bs bw by (simp add: min_def)
qed

theorem chunk_end_priority_witness:
  "(0::int) \<le> 13 \<and> (0::int) \<le> 16
   \<and> 13 + 16 < int (length ''ab cd ef. gh ij kl mn op qr st uv wx yz'')
   \<and> chunk_end ''ab cd ef. gh ij kl mn op qr st uv wx yz'' 16 13
       = spec_chunk_end ''ab cd ef. gh ij kl mn op qr st uv wx yz'' 16 13
   \<and> spec_chunk_end ''ab cd ef. gh ij kl mn op qr st uv wx yz'' 16 13 = 28
   \<and> int (length ''ab cd ef. gh ij kl mn op qr st uv wx yz'') \<le> 25 + 16
   \<and> chunk_end ''ab cd ef. gh ij kl mn op qr st uv wx yz'' 16 25
       = int (length ''ab cd ef. gh ij kl mn op qr st uv wx yz'')"
proof -
  have a: "spec_chunk_end ''ab cd ef. gh ij kl mn op qr st uv wx yz'' 16 13 = 28"
    by code_simp
  from chunk_end_priority [where start = 13 and cs = 16
         and t = "''ab cd ef. gh ij kl mn op qr st uv wx yz''"]
       chunk_end_priority [where start = 25 and cs = 16
         and t = "''ab cd ef. gh ij kl mn op qr st uv wx yz''"]
       a
  show ?thesis by simp
qed

section \<open>Claims about the parallel fetch stage\<close>

lemma crawl_async_fields:
  "url (crawl_async run u) = u"
  "success (crawl_async run u) = (\<not> isl (run u))"
  "run u = Inl e \<Longrightarrow> error (crawl_async run u) = Some e"
  by (simp_all add: crawl_async_def split: sum.splits)

lemma crawl_results:
  assumes "crawl run cores mp urls = Inr (pool, results)"
  shows "results = map (crawl_process run) urls"
  using assms by (auto simp: crawl_def Let_def split: if_splits)

text \<open>
  Claim C6. A fetch that raises is turned, inside its worker, into a result with
  \<open>success = False\<close> and the message of the exception; the stage returns one result for
  every input URL whatever the fetches do, and as many failed results as there are URLs
  whose fetch raises. (A pool can be created: the list is empty or at least one process
  is asked for. That concerns the configuration, not the fetches.)
\<close>

theorem crawl_partial_failure:
  assumes "urls = [] \<or> 1 \<le> (case mp of None \<Rightarrow> cores | Some m \<Rightarrow> m)"
  shows "\<exists>pool results. crawl run cores mp urls = Inr (pool, results)
           \<and> length results = length urls
           \<and> (\<forall>i < length urls.
                 (\<forall>e. run (urls ! i) = Inl e \<longrightarrow>
                        \<not> success (results ! i) \<and> error (results ! i) = Some e)
               \<and> (\<forall>r. run (urls ! i) = Inr r \<longrightarrow> success (results ! i)))
           \<and> length (filter (\<lambda>r. \<not> success r) results) = length (filter (\<lambda>u. isl (run u)) urls)"
proof -
  let ?rs = "map (crawl_process run) urls"
  have "\<exists>pool. crawl run cores mp urls = Inr (pool, ?rs)"
    using assms by (cases urls) (auto simp: crawl_def Let_def)
  moreover have "length (filter (\<lambda>r. \<not> success r) ?rs) = length (filter (\<lambda>u. isl (run u)) urls)"
    by (simp add: filter_map o_def crawl_process_def crawl_async_fields)
  moreover have "\<forall>i < length urls.
                 (\<forall>e. run (urls ! i) = Inl e \<longrightarrow> \<not> success (?rs ! i) \<and> error (?rs ! i) = Some e)
               \<and> (\<forall>r. run (urls ! i) = Inr r \<longrightarrow> success (?rs ! i))"
    by (simp add: crawl_process_def crawl_async_fields)
  ultimately show ?thesis by auto
qed

text \<open>Three URLs, the fetch of the second raises: three results, exactly one failed.\<close>

theorem crawl_partial_failure_witness:
  "([''a'', ''b'', ''c''] = [] \<or> (1::int) \<le> (case Some 3 of None \<Rightarrow> 2 | Some m \<Rightarrow> m))
   \<and> crawl example_run 2 (Some 3) [''a'', ''b'', ''c'']
       = Inr (Some 3,
           [\<lparr>url = ''a'', success = True, markdown = Some ''a'', cleaned_html = Some [],
             extracted_content = Some [], error = None\<rparr>,
            \<lparr>url = ''b'', success = False, markdown = None, cleaned_html = None,
             extracted_content = None, error = Some ''boom''\<rparr>,
            \<lparr>url = ''c'', success = True, markdown = Some ''c'', cleaned_html = Some [],
             extracted_content = Some [], error = None\<rparr>])
   \<and> length (filter (\<lambda>u. isl (example_run u)) [''a'', ''b'', ''c'']) = 1"
proof -
  have c: "crawl example_run 2 (Some 3) [''a'', ''b'', ''c'']
       = Inr (Some 3,
           [\<lparr>url = ''a'', success = True, markdown = Some ''a'', cleaned_html = Some [],
             extracted_content = Some [], error = None\<rparr>,
            \<lparr>url = ''b'', success = False, markdown = None, cleaned_html = None,
             extracted_content = None, error = Some ''boom''\<rparr>,
            \<lparr>url = ''c'', success = True, markdown = Some ''c'', cleaned_html = Some [],
             extracted_content = Some [], error = None\<rparr>])"
    by (simp add: crawl_def crawl_process_def crawl_async_def example_run_def attr_or_empty_def)
  from crawl_partial_failure [where urls = "[''a'', ''b'', ''c'']" and mp = "Some 3" and cores = 2
      and run = example_run]
  have "length (filter (\<lambda>u. isl (example_run u)) [''a'', ''b'', ''c'']) = 1"
    unfolding c by simp
  with c show ?thesis by simp
qed

text \<open>
  Claim C7 as stated fails: a requested number of processes is not capped by the core
  count. With 2 cores, 3 requested processes and 3 URLs the pool has 3 processes, not
  \<open>min(3, 2, 3) = 2\<close>.
\<close>

theorem crawl_pool_size_counterexample:
  "map_sum id fst (crawl example_run 2 (Some 3) [''a'', ''b'', ''c'']) = Inr (Some 3)
   \<and> min (3::int) (min 2 (int (length [''a'', ''b'', ''c'']))) = 2"
  by (simp add: crawl_def)

text \<open>
  Claim C7, amended. For the empty list \<open>crawl\<close> returns the empty list and creates no
  pool. For a non-empty list the pool has \<open>min(requested, len(urls))\<close> processes, where
  \<open>requested\<close> is the core count when no number is given; the core count does not cap a
  number that is given. (A number below 1 makes the pool constructor raise.)
\<close>

theorem crawl_pool_size:
  "crawl run cores mp [] = Inr (None, [])
   \<and> (urls \<noteq> [] \<and> 1 \<le> (case mp of None \<Rightarrow> cores | Some m \<Rightarrow> m) \<longrightarrow>
        map_sum id fst (crawl run cores mp urls)
          = Inr (Some (min (case mp of None \<Rightarrow> cores | Some m \<Rightarrow> m) (int (length urls)))))
   \<and> (urls \<noteq> [] \<and> (case mp of None \<Rightarrow> cores | Some m \<Rightarrow> m) < 1 \<longrightarrow>
        crawl run cores mp urls = Inl ValueError)"
  by (cases urls) (auto simp: crawl_def Let_def)

theorem crawl_pool_size_witness:
  "[''a'', ''b'', ''c''] \<noteq> [] \<and> (1::int) \<le> (case None of None \<Rightarrow> 2 | Some m \<Rightarrow> m)
   \<and> map_sum id fst (crawl example_run 2 None [''a'', ''b'', ''c'']) = Inr (Some 2)
   \<and> [''a''] \<noteq> [] \<and> (case Some 0 of None \<Rightarrow> 2 | Some m \<Rightarrow> m) < (1::int)
   \<and> crawl example_run 2 (Some 0) [''a''] = Inl ValueError"
  using crawl_pool_size [where run = example_run and cores = 2 and mp = None
          and urls = "[''a'', ''b'', ''c'']"]
        crawl_pool_size [where run = example_run and cores = 2 and mp = "Some 0" and urls = "[''a'']"]
  by simp

text \<open>
  Claim C10. The results come in the order of the input: the list of their \<open>url\<close> fields
  is the input list, so the \<open>i\<close>-th result belongs to the \<open>i\<close>-th URL.
\<close>

theorem crawl_preserves_order:
  assumes "crawl run cores mp urls = Inr (pool, results)"
  shows "map url results = urls
         \<and> length results = length urls
         \<and> (\<forall>i < length urls. url (results ! i) = urls ! i)"
proof -
  have "map url results = urls"
    unfolding crawl_results [OF assms]
    by (simp add: o_def crawl_process_def crawl_async_fields)
  then show ?thesis by (metis length_map nth_map)
qed

theorem crawl_preserves_order_witness:
  "crawl example_run 2 (Some 3) [''a'', ''b'', ''c'']
       = Inr (Some 3, map (crawl_process example_run) [''a'', ''b'', ''c''])
   \<and> map url (map (crawl_process example_run) [''a'', ''b'', ''c'']) = [''a'', ''b'', ''c'']"
proof -
  have c: "crawl example_run 2 (Some 3) [''a'', ''b'', ''c'']
       = Inr (Some 3, map (crawl_process example_run) [''a'', ''b'', ''c''])"
    by (simp add: crawl_def)
  from crawl_preserves_order [OF c] c show ?thesis by simp
qed

section \<open>The frontier crawler: what one link does to the state\<close>

lemma process_link_cases:
  assumes "process_link lib md page depth s l = Some s'"
  obtains (skip) "s' = s"
  | (seen) link where
      "s' = s\<lparr>doc_urls := (if is_doc link then insert link (doc_urls s) else doc_urls s),
                trace := trace s @ [Seen link depth]\<rparr>"
      "\<not> depth < md \<or> link \<in> visited_urls s \<or> link \<in> queued_urls s"
  | (enq) link where
      "s' = s\<lparr>doc_urls := (if is_doc link then insert link (doc_urls s) else doc_urls s),
                queue := queue s @ [(link, depth + 1)],
                unfinished_tasks := unfinished_tasks s + 1,
                queued_urls := insert link (queued_urls s),
                trace := trace s @ [Seen link depth, Enq link (depth + 1)]\<rparr>"
      "depth < md" "link \<notin> visited_urls s" "link \<notin> queued_urls s"
proof (cases "l = []")
  case True
  with assms have "s' = s" by (simp add: process_link_def)
  then show ?thesis by (rule skip)
next
  case False
  with assms obtain nl where nl: "netloc_of lib l = Some nl"
    by (auto simp: process_link_def split: option.splits)
  with assms False obtain link where
    link: "(if nl = [] then url_join lib page l else Some l) = Some link"
    by (auto simp: process_link_def split: option.splits)
  show ?thesis
  proof (cases "depth < md \<and> link \<notin> visited_urls s \<and> link \<notin> queued_urls s")
    case True
    have "s' = s\<lparr>doc_urls := (if is_doc link then insert link (doc_urls s) else doc_urls s),
                queue := queue s @ [(link, depth + 1)],
                unfinished_tasks := unfinished_tasks s + 1,
                queued_urls := insert link (queued_urls s),
                trace := trace s @ [Seen link depth, Enq link (depth + 1)]\<rparr>"
      using assms False nl link True by (simp add: process_link_def Let_def)
    then show ?thesis using True by (intro enq [of link]) simp_all
  next
    case no: False
    have "s' = s\<lparr>doc_urls := (if is_doc link then insert link (doc_urls s) else doc_urls s),
                trace := trace s @ [Seen link depth]\<rparr>"
      using assms False nl link no by (simp add: process_link_def Let_def)
    then show ?thesis using no by (intro seen [of link]) auto
  qed
qed

section \<open>The frontier crawler: the invariant of every interleaving\<close>

lemma inv_init: "frontier_inv md (extract_init c b)"
  by (simp add: frontier_inv_def extract_init_def enqueued_def processed_def seen_def
      seen_links_def deep_links_def)

lemma inv_process_link:
  assumes inv: "frontier_inv md s"
    and step: "process_link lib md page depth s l = Some s'"
  shows "frontier_inv md s'"
  using step
proof (cases rule: process_link_cases)
  case skip
  with inv show ?thesis by simp
next
  case (seen link)
  have a: "enqueued s' = enqueued s" "processed s' = processed s" "queue s' = queue s"
    "visited_urls s' = visited_urls s" "queued_urls s' = queued_urls s"
    by (simp_all add: seen(1) enqueued_def processed_def)
  have b: "seen_links s' = insert link (seen_links s)"
    "deep_links md s' = (if md \<le> depth then insert link (deep_links md s) else deep_links md s)"
    by (simp_all add: seen(1) seen_def seen_links_def deep_links_def)
  have d: "doc_urls s' = (if is_doc link then insert link (doc_urls s) else doc_urls s)"
    by (simp add: seen(1))
  have v: "visited_urls s \<subseteq> queued_urls s"
    and i7: "doc_urls s = {l \<in> seen_links s. is_doc l}"
    and i8: "doc_urls s \<subseteq> queued_urls s \<union> deep_links md s"
    using inv unfolding frontier_inv_def by blast+
  have d1: "doc_urls s' = {l \<in> seen_links s'. is_doc l}"
    unfolding b d i7 by auto
  have "link \<in> queued_urls s \<union> deep_links md s'"
    using seen(2) v unfolding b by auto
  moreover have "deep_links md s \<subseteq> deep_links md s'"
    unfolding b by auto
  ultimately have d2: "doc_urls s' \<subseteq> queued_urls s' \<union> deep_links md s'"
    using i8 unfolding d a by auto
  show ?thesis
    using inv d1 d2 unfolding frontier_inv_def a by blast
next
  case (enq link)
  have a: "enqueued s' = enqueued s @ [link]" "processed s' = processed s"
    "queue s' = queue s @ [(link, depth + 1)]"
    "visited_urls s' = visited_urls s" "queued_urls s' = insert link (queued_urls s)"
    by (simp_all add: enq(1) enqueued_def processed_def)
  have b: "seen_links s' = insert link (seen_links s)"
    "deep_links md s' = (if md \<le> depth then insert link (deep_links md s) else deep_links md s)"
    by (simp_all add: enq(1) seen_def seen_links_def deep_links_def)
  have d: "doc_urls s' = (if is_doc link then insert link (doc_urls s) else doc_urls s)"
    by (simp add: enq(1))
  have i1: "visited_urls s \<subseteq> queued_urls s"
    and i2: "fst ` set (queue s) \<subseteq> queued_urls s"
    and i3: "\<forall>j \<in> set (queue s). snd j \<le> max md 1"
    and i4: "\<forall>j \<in> set (processed s). snd j \<le> max md 1"
    and i5: "distinct (enqueued s)"
    and i6: "set (enqueued s) = queued_urls s"
    and i7: "doc_urls s = {l \<in> seen_links s. is_doc l}"
    and i8: "doc_urls s \<subseteq> queued_urls s \<union> deep_links md s"
    using inv unfolding frontier_inv_def by blast+
  have c1: "visited_urls s' \<subseteq> queued_urls s'"
    using i1 unfolding a by auto
  have c2: "fst ` set (queue s') \<subseteq> queued_urls s'"
    using i2 unfolding a by auto
  have c3: "\<forall>j \<in> set (queue s'). snd j \<le> max md 1"
    using i3 enq(2) unfolding a by auto
  have c4: "\<forall>j \<in> set (processed s'). snd j \<le> max md 1"
    using i4 unfolding a by blast
  have c5: "distinct (enqueued s')"
    using i5 i6 enq(4) unfolding a by auto
  have c6: "set (enqueued s') = queued_urls s'"
    using i6 unfolding a by auto
  have c7: "doc_urls s' = {l \<in> seen_links s'. is_doc l}"
    unfolding b d i7 by auto
  have "deep_links md s \<subseteq> deep_links md s'"
    unfolding b by auto
  then have c8: "doc_urls s' \<subseteq> queued_urls s' \<union> deep_links md s'"
    using i8 unfolding d a by auto
  show ?thesis
    unfolding frontier_inv_def using c1 c2 c3 c4 c5 c6 c7 c8 by blast
qed

lemma inv_process_links:
  "frontier_inv md s \<Longrightarrow> frontier_inv md (process_links lib md page depth s ls)"
proof (induction ls arbitrary: s)
  case Nil
  then show ?case by simp
next
  case (Cons l ls)
  show ?case
  proof (cases "process_link lib md page depth s l")
    case None
    with Cons.prems show ?thesis by simp
  next
    case (Some s')
    with Cons.prems have "frontier_inv md s'" by (auto intro: inv_process_link)
    with Cons.IH Some show ?thesis by simp
  qed
qed

lemma inv_ignores_workers:
  "frontier_inv md (s\<lparr>workers := ws\<rparr>) = frontier_inv md s"
  "frontier_inv md (task_done s) = frontier_inv md s"
  by (simp_all add: frontier_inv_def task_done_def enqueued_def processed_def seen_def
      seen_links_def deep_links_def)

lemma inv_worker_step:
  assumes inv: "frontier_inv md s" and step: "worker_step lib md s a = Some s'"
  shows "frontier_inv md s'"
proof (cases a)
  case (Fetched w links)
  with step obtain u depth where
    "s' = task_done ((process_links lib md u depth s links)\<lparr>workers := (workers s)[w := None]\<rparr>)"
    by (auto split: if_splits option.splits)
  then show ?thesis using inv by (simp add: inv_ignores_workers inv_process_links)
next
  case (Get w)
  with step obtain u depth rest where q: "queue s = (u, depth) # rest"
    by (auto split: if_splits list.splits)
  let ?s1 = "s\<lparr>queue := rest, trace := trace s @ [Got u depth]\<rparr>"
  have i1: "visited_urls s \<subseteq> queued_urls s"
    and i2: "fst ` set (queue s) \<subseteq> queued_urls s"
    and i3: "\<forall>j \<in> set (queue s). snd j \<le> max md 1"
    and i4: "\<forall>j \<in> set (processed s). snd j \<le> max md 1"
    and i5: "distinct (enqueued s)"
    and i6: "set (enqueued s) = queued_urls s"
    and i7: "doc_urls s = {l \<in> seen_links s. is_doc l}"
    and i8: "doc_urls s \<subseteq> queued_urls s \<union> deep_links md s"
    using inv unfolding frontier_inv_def by blast+
  have a: "enqueued ?s1 = enqueued s" "processed ?s1 = processed s @ [(u, depth)]"
    "seen_links ?s1 = seen_links s" "deep_links md ?s1 = deep_links md s"
    by (simp_all add: enqueued_def processed_def seen_def seen_links_def deep_links_def)
  have uq: "u \<in> queued_urls s" and dd: "depth \<le> max md 1"
    using i2 i3 q by auto
  have s1: "frontier_inv md ?s1"
    unfolding frontier_inv_def a
    using i1 i2 i3 i4 i5 i6 i7 i8 dd q by auto
  show ?thesis
  proof (cases "u \<in> visited_urls s")
    case True
    with step Get q have "s' = task_done ?s1"
      by (auto split: if_splits)
    with s1 show ?thesis by (simp add: inv_ignores_workers)
  next
    case False
    with step Get q have s': "s' = ?s1\<lparr>visited_urls := insert u (visited_urls s),
                                      workers := (workers s)[w := Some (u, depth)]\<rparr>"
      by (auto split: if_splits)
    have b: "enqueued s' = enqueued ?s1" "processed s' = processed ?s1"
      "seen_links s' = seen_links ?s1" "deep_links md s' = deep_links md ?s1"
      "queue s' = queue ?s1" "queued_urls s' = queued_urls ?s1" "doc_urls s' = doc_urls ?s1"
      "visited_urls s' = insert u (visited_urls ?s1)"
      by (simp_all add: s' enqueued_def processed_def seen_def seen_links_def deep_links_def)
    have "u \<in> queued_urls ?s1" using uq by simp
    then show ?thesis
      using s1 unfolding frontier_inv_def b by blast
  qed
qed

lemma inv_run_workers:
  "frontier_inv md s \<Longrightarrow> run_workers lib md s sched = Some s' \<Longrightarrow> frontier_inv md s'"
proof (induction sched arbitrary: s)
  case Nil
  then show ?case by simp
next
  case (Cons a sched)
  from Cons.prems(2) obtain s1 where
    1: "worker_step lib md s a = Some s1" and 2: "run_workers lib md s1 sched = Some s'"
    by (auto split: option.splits)
  from inv_worker_step [OF Cons.prems(1) 1] have "frontier_inv md s1" .
  with Cons.IH 2 show ?case by blast
qed

lemma inv_extract_state:
  "extract_state lib md c b sched = Some s \<Longrightarrow> frontier_inv md s"
  unfolding extract_state_def by (rule inv_run_workers [OF inv_init])

section \<open>The frontier crawler: the counter of unfinished tasks\<close>

text \<open>
  The counter that \<^verbatim>\<open>queue.join()\<close> waits for is the number of queued jobs plus the number
  of workers that hold one. So \<^verbatim>\<open>task_done\<close> is never called on a counter that is zero,
  and the call returns exactly when the queue is empty and every worker is idle.
\<close>

lemma busy_update_Some:
  "w < length ws \<Longrightarrow> ws ! w = None \<Longrightarrow>
   length (filter (\<lambda>j. j \<noteq> None) (ws[w := Some x])) = Suc (length (filter (\<lambda>j. j \<noteq> None) ws))"
proof (induction ws arbitrary: w)
  case Nil
  then show ?case by simp
next
  case (Cons a ws)
  then show ?case by (cases w) auto
qed

lemma busy_update_None:
  "w < length ws \<Longrightarrow> ws ! w = Some x \<Longrightarrow>
   Suc (length (filter (\<lambda>j. j \<noteq> None) (ws[w := None]))) = length (filter (\<lambda>j. j \<noteq> None) ws)"
proof (induction ws arbitrary: w)
  case Nil
  then show ?case by simp
next
  case (Cons a ws)
  then show ?case by (cases w) auto
qed

lemma process_link_counter:
  assumes "process_link lib md page depth s l = Some s'"
  shows "workers s' = workers s
       \<and> unfinished_tasks s' + length (queue s) = unfinished_tasks s + length (queue s')"
  using assms by (cases rule: process_link_cases) simp_all

lemma process_links_counter:
  "workers (process_links lib md page depth s ls) = workers s
   \<and> unfinished_tasks (process_links lib md page depth s ls) + length (queue s)
       = unfinished_tasks s + length (queue (process_links lib md page depth s ls))"
proof (induction ls arbitrary: s)
  case Nil
  then show ?case by simp
next
  case (Cons l ls)
  show ?case
  proof (cases "process_link lib md page depth s l")
    case None
    then show ?thesis by simp
  next
    case (Some s')
    from process_link_counter [OF Some] Cons.IH [of s'] Some show ?thesis by simp
  qed
qed

lemma counter_worker_step:
  assumes "unfinished_tasks s = length (queue s) + busy s"
    and "worker_step lib md s a = Some s'"
  shows "unfinished_tasks s' = length (queue s') + busy s'"
proof (cases a)
  case (Get w)
  with assms(2) obtain u depth rest where q: "queue s = (u, depth) # rest"
    and w: "w < length (workers s)" "workers s ! w = None"
    by (auto split: if_splits list.splits)
  show ?thesis
  proof (cases "u \<in> visited_urls s")
    case True
    with assms Get q w show ?thesis
      by (auto simp: task_done_def busy_def)
  next
    case False
    with assms(2) Get q w have
      "s' = s\<lparr>queue := rest, trace := trace s @ [Got u depth],
              visited_urls := insert u (visited_urls s),
              workers := (workers s)[w := Some (u, depth)]\<rparr>"
      by simp
    then show ?thesis
      using assms(1) q busy_update_Some [OF w, of "(u, depth)"] by (simp add: busy_def)
  qed
next
  case (Fetched w links)
  with assms(2) obtain u depth where w: "w < length (workers s)" "workers s ! w = Some (u, depth)"
    by (auto split: if_splits option.splits)
  let ?p = "process_links lib md u depth s links"
  have s': "s' = task_done (?p\<lparr>workers := (workers s)[w := None]\<rparr>)"
    using assms(2) Fetched w by simp
  have "unfinished_tasks ?p + length (queue s) = unfinished_tasks s + length (queue ?p)"
    using process_links_counter [of lib md u depth s links] by simp
  with assms(1) have "unfinished_tasks ?p = length (queue ?p) + busy s" by simp
  then show ?thesis
    using busy_update_None [OF w] by (simp add: s' task_done_def busy_def)
qed

lemma counter_run_workers:
  "unfinished_tasks s = length (queue s) + busy s \<Longrightarrow> run_workers lib md s sched = Some s'
   \<Longrightarrow> unfinished_tasks s' = length (queue s') + busy s'"
proof (induction sched arbitrary: s)
  case Nil
  then show ?case by simp
next
  case (Cons a sched)
  from Cons.prems(2) obtain s1 where
    1: "worker_step lib md s a = Some s1" and 2: "run_workers lib md s1 sched = Some s'"
    by (auto split: option.splits)
  from counter_worker_step [OF Cons.prems(1) 1] Cons.IH 2 show ?case by blast
qed

lemma unfinished_tasks_count:
  assumes "extract_state lib md c b sched = Some s"
  shows "unfinished_tasks s = length (queue s) + busy s"
proof -
  have "unfinished_tasks (extract_init c b) = length (queue (extract_init c b)) + busy (extract_init c b)"
    by (simp add: extract_init_def busy_def)
  then show ?thesis
    using assms unfolding extract_state_def by (rule counter_run_workers)
qed

section \<open>Claims about the frontier crawler\<close>

text \<open>
  Claim C1 as stated fails. The seed is put on the queue and into \<open>queued_urls\<close>, but it
  is never tested against the filter: only the links found on fetched pages are. A seed
  whose lowercase form contains \<open>doc\<close> and whose page has no links gives the empty result.
\<close>

theorem doc_urls_filter_counterexample:
  "extract_doc_urls example_urllib 3 3 ''https://x.com/docs'' [Get 0, Fetched 0 []] = Some {}
   \<and> is_doc ''https://x.com/docs''"
  by code_simp

text \<open>
  Claim C1, amended. In every state of an extraction, and so in the returned set, a URL is
  a documentation URL iff it is the resolved form of a link that a worker saw on a fetched
  page and its lowercase form contains \<open>doc\<close>. No URL without that substring is ever in the
  set; the seed is in it only when some fetched page links to it. The filter accepts
  \<open>https://x.com/docs/a\<close> and rejects \<open>https://x.com/about\<close>.
\<close>

theorem doc_urls_filter:
  assumes "extract_state lib md c b sched = Some s"
  shows "(\<forall>l. l \<in> doc_urls s \<longleftrightarrow> l \<in> seen_links s \<and> is_doc l)
       \<and> extract_doc_urls lib md c b sched
           = (if unfinished_tasks s = 0 then Some (doc_urls s) else None)
       \<and> is_doc ''https://x.com/docs/a'' \<and> \<not> is_doc ''https://x.com/about''"
proof -
  have "doc_urls s = {l \<in> seen_links s. is_doc l}"
    using inv_extract_state [OF assms] unfolding frontier_inv_def by blast
  then have "\<forall>l. l \<in> doc_urls s \<longleftrightarrow> l \<in> seen_links s \<and> is_doc l" by blast
  moreover have "extract_doc_urls lib md c b sched
           = (if unfinished_tasks s = 0 then Some (doc_urls s) else None)"
    using assms by (simp add: extract_doc_urls_def)
  moreover have "is_doc ''https://x.com/docs/a''" by code_simp
  moreover have "\<not> is_doc ''https://x.com/about''" by code_simp
  ultimately show ?thesis by blast
qed

theorem doc_urls_filter_witness:
  "extract_state example_urllib 2 2 ''h'' example_schedule = Some example_final
   \<and> (\<forall>l. l \<in> doc_urls example_final \<longleftrightarrow> l \<in> seen_links example_final \<and> is_doc l)
   \<and> extract_doc_urls example_urllib 2 2 ''h'' example_schedule = Some {''h/doc/a'', ''h/doc''}"
proof -
  have e: "extract_state example_urllib 2 2 ''h'' example_schedule = Some example_final"
    by code_simp
  have f: "unfinished_tasks example_final = 0" "doc_urls example_final = {''h/doc/a'', ''h/doc''}"
    by (simp_all add: example_final_def)
  from doc_urls_filter [OF e] e f show ?thesis by simp
qed

text \<open>
  Claim C4 as stated fails for \<open>maxDepth = 0\<close>: the seed job has depth 1 and is always
  processed. The run below returns after a worker processed \<open>(h, 1)\<close>.
\<close>

theorem processed_depth_counterexample:
  "map_option processed (extract_state example_urllib 0 1 ''h'' [Get 0, Fetched 0 [''/doc'']])
     = Some [(''h'', 1)]
   \<and> extract_doc_urls example_urllib 0 1 ''h'' [Get 0, Fetched 0 [''/doc'']] = Some {''h/doc''}
   \<and> (1::int) > 0"
  by code_simp

text \<open>
  Claim C4, amended. No job that a worker takes from the queue has a depth greater than
  \<open>max maxDepth 1\<close>: for every \<open>maxDepth \<ge> 1\<close> no processed job is deeper than \<open>maxDepth\<close>,
  and for \<open>maxDepth \<le> 0\<close> the only depth processed is that of the seed, 1.
\<close>

theorem processed_depth_bound:
  assumes "extract_state lib md c b sched = Some s" "(u, d) \<in> set (processed s)"
  shows "d \<le> max md 1 \<and> (1 \<le> md \<longrightarrow> d \<le> md)"
proof -
  have "\<forall>j \<in> set (processed s). snd j \<le> max md 1"
    using inv_extract_state [OF assms(1)] unfolding frontier_inv_def by blast
  with assms(2) have "d \<le> max md 1" by auto
  then show ?thesis by auto
qed

theorem processed_depth_bound_witness:
  "extract_state example_urllib 2 2 ''h'' example_schedule = Some example_final
   \<and> (''h/about'', 2) \<in> set (processed example_final)
   \<and> (2::int) \<le> max 2 1 \<and> (1::int) \<le> 2 \<and> (2::int) \<le> 2"
proof -
  have e: "extract_state example_urllib 2 2 ''h'' example_schedule = Some example_final"
    by code_simp
  have p: "(''h/about'', 2) \<in> set (processed example_final)"
    by (simp add: example_final_def processed_def)
  from processed_depth_bound [OF e p] e p show ?thesis by simp
qed

text \<open>
  Claim C5 as stated fails in its second part: a documentation link found on a page at
  depth \<open>maxDepth\<close> (or deeper) enters \<open>doc_urls\<close> but is not enqueued. With \<open>maxDepth = 1\<close>
  the link \<open>h/doc\<close> of the seed page is a documentation URL and is not in \<open>queued_urls\<close>.
\<close>

theorem frontier_sets_counterexample:
  "map_option doc_urls (extract_state example_urllib 1 1 ''h'' [Get 0, Fetched 0 [''/doc'']])
     = Some {''h/doc''}
   \<and> map_option queued_urls (extract_state example_urllib 1 1 ''h'' [Get 0, Fetched 0 [''/doc'']])
     = Some {''h''}
   \<and> \<not> {''h/doc''} \<subseteq> {''h''}"
  by code_simp

text \<open>
  Claim C5, amended. In every state of every interleaving of an extraction, \<open>visited\<close> is a
  subset of \<open>queued\<close>; the URLs inserted into \<open>queued\<close> (each together with its
  \<^verbatim>\<open>queue.put\<close>) are pairwise distinct, so each URL is inserted at most once, also with
  cycles and duplicate links; and every documentation URL is in \<open>queued\<close> or was seen on a
  page of depth at least \<open>maxDepth\<close>.
\<close>

theorem frontier_sets_invariant:
  assumes "extract_state lib md c b sched = Some s"
  shows "visited_urls s \<subseteq> queued_urls s
       \<and> distinct (enqueued s) \<and> set (enqueued s) = queued_urls s
       \<and> doc_urls s \<subseteq> queued_urls s \<union> deep_links md s"
  using inv_extract_state [OF assms] unfolding frontier_inv_def by blast

theorem frontier_sets_invariant_witness:
  "extract_state example_urllib 2 2 ''h'' example_schedule = Some example_final
   \<and> visited_urls example_final \<subseteq> queued_urls example_final
   \<and> distinct (enqueued example_final)
   \<and> enqueued example_final = [''h'', ''h/doc'', ''h/about'']
   \<and> set (enqueued example_final) = queued_urls example_final
   \<and> doc_urls example_final \<subseteq> queued_urls example_final \<union> deep_links 2 example_final"
proof -
  have e: "extract_state example_urllib 2 2 ''h'' example_schedule = Some example_final"
    by code_simp
  have q: "enqueued example_final = [''h'', ''h/doc'', ''h/about'']"
    by (simp add: example_final_def enqueued_def)
  from frontier_sets_invariant [OF e] e q show ?thesis by simp
qed

end
